theory Spec2Isabelle
  imports Complex_Main
begin

section \<open>Golden Copy Manager: history store, clipboard watcher, search box, hotkey window\<close>

text \<open>
  A shallow embedding of the data logic of \<^verbatim>\<open>Golden_Copy_Manager.py\<close>.
  The state that the Python object mutates in place is passed and returned explicitly.
  The wall clock (\<^verbatim>\<open>time.time()\<close>) is an argument \<open>now\<close> of every function that reads
  it; time stamps are Python floats and are modelled as real numbers. A Python \<^verbatim>\<open>str\<close> is
  modelled as a \<open>string\<close>, one \<open>char\<close> standing for one element of the Python string.
  Redrawing the list box and writing the history file do not change the history and are
  left out of the model.
\<close>

subsection \<open>Constants\<close>

definition MAX_ITEMS :: nat where
  "MAX_ITEMS = 50"

definition MAX_SEARCH_CHARS :: nat where
  "MAX_SEARCH_CHARS = 200"

subsection \<open>String primitives\<close>

text \<open>
  \<^verbatim>\<open>str.strip()\<close> removes the leading and the trailing white space. In the range of a
  \<open>char\<close> the white space of Python is 0x09 to 0x0D, 0x1C to 0x20, 0x85 and 0xA0.
\<close>

definition is_space :: "char \<Rightarrow> bool" where
  "is_space c = (let n = (of_char c :: nat) in
     (9 \<le> n \<and> n \<le> 13) \<or> (28 \<le> n \<and> n \<le> 32) \<or> n = 133 \<or> n = 160)"

definition strip :: "string \<Rightarrow> string" where
  "strip s = rev (dropWhile is_space (rev (dropWhile is_space s)))"

text \<open>
  \<^verbatim>\<open>str.casefold()\<close>, modelled on the ASCII letters only: every other character is left
  as it is. The fold key is read by the search filter of the list box and by nothing else.
\<close>

definition casefold :: "string \<Rightarrow> string" where
  "casefold s = map (\<lambda>c. let n = (of_char c :: nat) in
     if 65 \<le> n \<and> n \<le> 90 then char_of (n + 32) else c) s"

subsection \<open>History entries\<close>

text \<open>
  The source keeps each item as a dictionary
  \<^verbatim>\<open>{"text": str, "fold": str, "ts": float, "pinned": bool}\<close>; every dictionary it builds
  has exactly these four keys.
\<close>

record entry =
  etext :: string
  fold_key :: string
  ts :: real
  pinned :: bool

definition mk_entry :: "string \<Rightarrow> real \<Rightarrow> bool \<Rightarrow> entry" where
  "mk_entry t stamp p = \<lparr>etext = t, fold_key = casefold t, ts = stamp, pinned = p\<rparr>"

definition pinned_part :: "entry list \<Rightarrow> entry list" where
  "pinned_part hist = filter pinned hist"

definition unpinned_part :: "entry list \<Rightarrow> entry list" where
  "unpinned_part hist = filter (\<lambda>h. \<not> pinned h) hist"

text \<open>
  The shape every history has after \<^verbatim>\<open>_trim_history\<close>: the pinned entries come first.
\<close>

definition partitioned :: "entry list \<Rightarrow> bool" where
  "partitioned hist = (hist = pinned_part hist @ unpinned_part hist)"

text \<open>\<^verbatim>\<open>list.insert(i, x)\<close> for \<open>0 \<le> i\<close>: an index past the end appends.\<close>

definition list_insert :: "nat \<Rightarrow> 'a \<Rightarrow> 'a list \<Rightarrow> 'a list" where
  "list_insert i x xs = take i xs @ x # drop i xs"

subsection \<open>\<^verbatim>\<open>_trim_history\<close>\<close>

definition trim_history :: "entry list \<Rightarrow> entry list" where
  "trim_history hist =
     (let pinned_items = pinned_part hist;
          unpinned = unpinned_part hist;
          unpinned = (if length unpinned > MAX_ITEMS then take MAX_ITEMS unpinned else unpinned)
      in pinned_items @ unpinned)"

subsection \<open>\<^verbatim>\<open>_add_to_history\<close>\<close>

text \<open>
  The \<^verbatim>\<open>for\<close> loop with \<^verbatim>\<open>break\<close>: the first entry whose text equals the item is popped
  and its pinned flag is kept; with no such entry the flag stays \<^verbatim>\<open>False\<close>.
\<close>

fun pop_first :: "string \<Rightarrow> entry list \<Rightarrow> bool \<times> entry list" where
  "pop_first item [] = (False, [])"
| "pop_first item (h # hs) =
     (if etext h = item then (pinned h, hs)
      else (let (p, rest) = pop_first item hs in (p, h # rest)))"

definition pinned_count :: "entry list \<Rightarrow> nat" where
  "pinned_count hist = length (filter pinned hist)"

definition add_to_history :: "real \<Rightarrow> string \<Rightarrow> entry list \<Rightarrow> entry list" where
  "add_to_history now item hist =
     (let (p, hist) = pop_first item hist;
          e = mk_entry item now p;
          hist = (if p then list_insert 0 e hist
                     else list_insert (pinned_count hist) e hist)
      in trim_history hist)"

text \<open>A sequence of captures, each with the clock value read when it runs.\<close>

fun captures :: "(real \<times> string) list \<Rightarrow> entry list \<Rightarrow> entry list" where
  "captures [] hist = hist"
| "captures ((now, item) # rest) hist = captures rest (add_to_history now item hist)"


subsection \<open>\<^verbatim>\<open>toggle_pin_selected\<close>\<close>

text \<open>
  The history part of \<^verbatim>\<open>toggle_pin_selected\<close> for a selected item: every entry with the
  item's text is removed, a fresh entry with the flipped flag and the item's own time stamp
  is inserted, and the history is trimmed.
\<close>

definition toggle_pin :: "entry \<Rightarrow> entry list \<Rightarrow> entry list" where
  "toggle_pin item hist =
     (let t = etext item;
          p = (\<not> pinned item);
          stamp = ts item;
          hist = filter (\<lambda>h. etext h \<noteq> t) hist;
          e = mk_entry t stamp p;
          hist = (if p then list_insert 0 e hist
                  else list_insert (pinned_count hist) e hist)
      in trim_history hist)"

text \<open>
  The list box selects by position; after each redraw \<^verbatim>\<open>_refresh_list\<close> selects again the
  first shown entry whose text is the one selected before. With an empty search box every
  entry is shown, so selecting a text picks the first entry of the history with that text.
\<close>

definition select_text :: "string \<Rightarrow> entry list \<Rightarrow> entry option" where
  "select_text t hist = find (\<lambda>h. etext h = t) hist"

definition toggle_pin_text :: "string \<Rightarrow> entry list \<Rightarrow> entry list" where
  "toggle_pin_text t hist =
     (case select_text t hist of None \<Rightarrow> hist | Some item \<Rightarrow> toggle_pin item hist)"

subsection \<open>The state of the manager\<close>

record manager =
  history :: "entry list"
  last_clip :: "string option"
  monitoring_paused :: bool
  search_var :: string
  search_warn_var :: string
  status_var :: string
  bells :: nat

definition toggle_pin_selected :: "entry option \<Rightarrow> manager \<Rightarrow> manager" where
  "toggle_pin_selected sel m =
     (case sel of
        None \<Rightarrow> m\<lparr>status_var := ''Select an item first.''\<rparr>
      | Some item \<Rightarrow>
          m\<lparr>history := toggle_pin item (history m),
            status_var := (if \<not> pinned item then ''Pinned.'' else ''Unpinned.'')\<rparr>)"

subsection \<open>\<^verbatim>\<open>_validate_search\<close>\<close>

definition validate_search :: "string \<Rightarrow> manager \<Rightarrow> bool \<times> manager" where
  "validate_search proposed m =
     (if length proposed \<le> MAX_SEARCH_CHARS
      then (True, m\<lparr>search_warn_var := []\<rparr>)
      else (False, m\<lparr>bells := Suc (bells m),
                      search_warn_var := ''Search limited to 200 characters''\<rparr>))"

text \<open>
  The search entry is built with \<^verbatim>\<open>validate="key"\<close> and \<^verbatim>\<open>_validate_search\<close> on
  \<^verbatim>\<open>%P\<close>, the text the entry would hold after the edit: the toolkit applies the edit when
  the command returns true and leaves the entry as it is otherwise.
\<close>

definition search_key_edit :: "string \<Rightarrow> manager \<Rightarrow> manager" where
  "search_key_edit proposed m =
     (let (ok, m) = validate_search proposed m
      in if ok then m\<lparr>search_var := proposed\<rparr> else m)"

subsection \<open>\<^verbatim>\<open>_poll_clipboard\<close>\<close>

text \<open>
  What \<^verbatim>\<open>clipboard_get\<close> does on one tick: it returns a string, returns something that
  is not a string, or raises \<^verbatim>\<open>TclError\<close>.
\<close>

datatype clipboard = ClipText string | ClipOther | ClipTclError

fun get_clipboard_text :: "clipboard \<Rightarrow> string option" where
  "get_clipboard_text (ClipText data) = Some data"
| "get_clipboard_text ClipOther = None"
| "get_clipboard_text ClipTclError = None"

text \<open>
  One tick. The tick re-arms its own timer at the end, whatever happened; the timer is not
  part of the state.
\<close>

definition poll_clipboard :: "real \<Rightarrow> clipboard \<Rightarrow> manager \<Rightarrow> manager" where
  "poll_clipboard now clip m =
     (case get_clipboard_text clip of
        None \<Rightarrow> m
      | Some t \<Rightarrow>
          (let normalized = strip t in
           if normalized \<noteq> [] then
             (if monitoring_paused m then m\<lparr>last_clip := Some normalized\<rparr>
              else if Some normalized \<noteq> last_clip m then
                m\<lparr>last_clip := Some normalized,
                  history := add_to_history now normalized (history m)\<rparr>
              else m)
           else m))"

definition toggle_monitoring :: "manager \<Rightarrow> manager" where
  "toggle_monitoring m =
     (let m = m\<lparr>monitoring_paused := \<not> monitoring_paused m\<rparr>
      in m\<lparr>status_var := (if monitoring_paused m then ''Clipboard monitoring paused.''
                           else ''Clipboard monitoring resumed.'')\<rparr>)"

subsection \<open>\<^verbatim>\<open>_load_history\<close>\<close>


















subsection \<open>The hotkey window of \<^verbatim>\<open>WindowsHotkeyListener\<close>\<close>

datatype event = HOTKEY | INFO string | ERROR string

text \<open>
  The fields of the listener, the queue it writes to, and \<open>registered\<close>: the combination
  the operating system holds for the window and the listener's hotkey id, if any.
\<close>

record listener =
  mods :: nat
  vk :: nat
  display :: string
  pending_mods :: "nat option"
  pending_vk :: "nat option"
  pending_display :: "string option"
  registered :: "(nat \<times> nat) option"
  q :: "event list"

definition set_hotkey :: "nat \<Rightarrow> nat \<Rightarrow> string \<Rightarrow> listener \<Rightarrow> listener" where
  "set_hotkey new_mods new_vk new_display l =
     l\<lparr>pending_mods := Some new_mods, pending_vk := Some new_vk,
       pending_display := Some new_display\<rparr>"

text \<open>
  \<^verbatim>\<open>RegisterHotKey\<close> succeeds or fails as the operating system decides; its answer is the
  argument \<open>granted\<close>.
\<close>

definition register_hotkey :: "bool \<Rightarrow> nat \<Rightarrow> nat \<Rightarrow> listener \<Rightarrow> bool \<times> listener" where
  "register_hotkey granted m v l =
     (if granted then (True, l\<lparr>registered := Some (m, v)\<rparr>) else (False, l))"

definition unregister_hotkey :: "listener \<Rightarrow> listener" where
  "unregister_hotkey l = l\<lparr>registered := None\<rparr>"

definition put :: "event \<Rightarrow> listener \<Rightarrow> listener" where
  "put ev l = l\<lparr>q := q l @ [ev]\<rparr>"

text \<open>
  The window procedure on \<^verbatim>\<open>WM_APP_SET_HOTKEY\<close>. \<open>granted_new\<close> is the system's answer to
  registering the new combination, \<open>granted_old\<close> its answer to the rollback.
\<close>

definition wndproc_set_hotkey :: "bool \<Rightarrow> bool \<Rightarrow> listener \<Rightarrow> listener" where
  "wndproc_set_hotkey granted_new granted_old l =
     (case (pending_mods l, pending_vk l, pending_display l) of
        (Some new_mods, Some new_vk, Some new_disp) \<Rightarrow>
          (if new_disp = [] then l
           else
             (let l = unregister_hotkey l;
                  (ok, l) = register_hotkey granted_new new_mods new_vk l
              in if ok then
                   put (INFO (''Hotkey set to: '' @ new_disp))
                     (l\<lparr>mods := new_mods, vk := new_vk, display := new_disp\<rparr>)
                 else
                   (let (ok, l) = register_hotkey granted_old (mods l) (vk l) l
                    in if ok then
                         put (ERROR (''Hotkey '' @ [CHR 0x27] @ new_disp @ [CHR 0x27]
                                      @ '' unavailable (already used). Kept: '' @ display l)) l
                       else
                         put (ERROR ''Hotkey registration failed and rollback failed.'') l)))
      | _ \<Rightarrow> l)"

section \<open>Properties\<close>

subsection \<open>Auxiliary facts about the history functions\<close>

lemma set_list_insert: "set (list_insert i x xs) = insert x (set xs)"
proof -
  have "set (take i xs) \<union> set (drop i xs) = set xs"
    by (metis append_take_drop_id set_append)
  then show ?thesis
    by (auto simp: list_insert_def)
qed

lemma map_list_insert: "map f (list_insert i x xs) = list_insert i (f x) (map f xs)"
  by (simp add: list_insert_def take_map drop_map)

lemma distinct_list_insert:
  "distinct (list_insert i x xs) \<longleftrightarrow> x \<notin> set xs \<and> distinct xs"
proof -
  have "distinct (take i xs @ drop i xs) = distinct xs"
    by simp
  moreover have "set (take i xs) \<union> set (drop i xs) = set xs"
    by (metis append_take_drop_id set_append)
  ultimately show ?thesis
    unfolding list_insert_def by (auto simp del: append_take_drop_id)
qed

lemma pop_first_set: "set (snd (pop_first item hs)) \<subseteq> set hs"
  by (induction hs) (auto split: prod.splits)

lemma pop_first_distinct:
  "distinct (map etext hs) \<Longrightarrow> distinct (map etext (snd (pop_first item hs)))"
proof (induction hs)
  case Nil
  then show ?case by simp
next
  case (Cons h hs)
  have "etext h \<notin> etext ` set hs" using Cons.prems by simp
  with pop_first_set [of item hs] have "etext h \<notin> etext ` set (snd (pop_first item hs))"
    by blast
  with Cons show ?case
    by (auto split: prod.splits)
qed

lemma pop_first_absent:
  "distinct (map etext hs) \<Longrightarrow> item \<notin> etext ` set (snd (pop_first item hs))"
proof (induction hs)
  case Nil
  then show ?case by simp
next
  case (Cons h hs)
  then show ?case
    by (auto split: prod.splits)
qed

lemma trim_history_set: "set (trim_history hs) \<subseteq> set hs"
  by (auto simp: trim_history_def pinned_part_def unpinned_part_def Let_def dest: in_set_takeD)

lemma trim_history_distinct:
  assumes "distinct (map etext hs)"
  shows "distinct (map etext (trim_history hs))"
proof -
  from assms have d: "distinct hs" and inj: "inj_on etext (set hs)"
    by (simp_all add: distinct_map)
  have "distinct (filter pinned hs @ take n (filter (\<lambda>h. \<not> pinned h) hs))" for n
    using d by (auto dest: in_set_takeD)
  then have "distinct (trim_history hs)"
    using d by (auto simp: trim_history_def pinned_part_def unpinned_part_def Let_def)
  moreover have "inj_on etext (set (trim_history hs))"
    using inj trim_history_set by (rule inj_on_subset)
  ultimately show ?thesis
    by (simp add: distinct_map)
qed

lemma add_to_history_distinct:
  assumes "distinct (map etext hs)"
  shows "distinct (map etext (add_to_history now item hs))"
proof -
  obtain p rest where pr: "pop_first item hs = (p, rest)"
    by (cases "pop_first item hs")
  from assms have "distinct (map etext rest)" and "item \<notin> etext ` set rest"
    using pop_first_distinct [of hs item] pop_first_absent [of hs item] pr by simp_all
  then have "distinct (map etext (list_insert i (mk_entry item now p) rest))" for i
    by (simp add: map_list_insert distinct_list_insert mk_entry_def)
  then have "distinct (map etext (trim_history (list_insert i (mk_entry item now p) rest)))" for i
    by (rule trim_history_distinct)
  then show ?thesis
    unfolding add_to_history_def pr by (cases p) (simp_all add: Let_def)
qed

subsection \<open>Deduplication\<close>

text \<open>
  Claim C1. Starting from a history in which no two entries have the same text, every
  sequence of captures leaves a history in which no two entries have the same text.
\<close>

theorem captures_no_duplicates:
  "distinct (map etext hist) \<Longrightarrow> distinct (map etext (captures ops hist))"
proof (induction ops arbitrary: hist)
  case Nil
  then show ?case by simp
next
  case (Cons op ops)
  obtain now item where op: "op = (now, item)"
    by (cases op)
  from Cons.prems have "distinct (map etext (add_to_history now item hist))"
    by (rule add_to_history_distinct)
  then show ?case
    using Cons.IH op by simp
qed

theorem captures_no_duplicates_witness:
  "distinct (map etext [mk_entry ''alpha'' 1 False, mk_entry ''beta'' 0 True])
   \<and> distinct (map etext (captures [(2, ''beta''), (3, ''gamma''), (4, ''alpha'')]
                              [mk_entry ''alpha'' 1 False, mk_entry ''beta'' 0 True]))"
proof -
  have d: "distinct (map etext [mk_entry ''alpha'' 1 False, mk_entry ''beta'' 0 True])"
    by (simp add: mk_entry_def)
  from d captures_no_duplicates [OF d] show ?thesis
    by blast
qed

subsection \<open>Capacity eviction\<close>

lemma trim_history_eq:
  "trim_history hs = pinned_part hs @ take MAX_ITEMS (unpinned_part hs)"
  by (simp add: trim_history_def Let_def)

lemma pinned_part_append [simp]: "pinned_part (xs @ ys) = pinned_part xs @ pinned_part ys"
  by (simp add: pinned_part_def)

lemma unpinned_part_append [simp]:
  "unpinned_part (xs @ ys) = unpinned_part xs @ unpinned_part ys"
  by (simp add: unpinned_part_def)

lemma pinned_part_idem [simp]: "pinned_part (pinned_part xs) = pinned_part xs"
  by (simp add: pinned_part_def)

lemma unpinned_part_idem [simp]: "unpinned_part (unpinned_part xs) = unpinned_part xs"
  by (simp add: unpinned_part_def)

lemma pinned_unpinned [simp]: "pinned_part (unpinned_part xs) = []"
  by (simp add: pinned_part_def unpinned_part_def)

lemma unpinned_pinned [simp]: "unpinned_part (pinned_part xs) = []"
  by (simp add: pinned_part_def unpinned_part_def)

lemma filter_take_same: "filter P (take n (filter P xs)) = take n (filter P xs)"
  by (rule filter_True) (auto dest: in_set_takeD)

lemma filter_take_other: "filter (\<lambda>x. \<not> P x) (take n (filter P xs)) = []"
  by (auto simp: filter_empty_conv dest: in_set_takeD)

lemma unpinned_part_take_unpinned [simp]:
  "unpinned_part (take n (unpinned_part xs)) = take n (unpinned_part xs)"
  unfolding unpinned_part_def by (rule filter_take_same)

lemma pinned_part_take_unpinned [simp]:
  "pinned_part (take n (unpinned_part xs)) = []"
  unfolding unpinned_part_def pinned_part_def
  using filter_take_other [of "\<lambda>h. \<not> pinned h" n xs] by simp

lemma pinned_part_trim: "pinned_part (trim_history hs) = pinned_part hs"
  by (simp add: trim_history_eq)

lemma unpinned_part_trim: "unpinned_part (trim_history hs) = take MAX_ITEMS (unpinned_part hs)"
  by (simp add: trim_history_eq)

lemma unpinned_trim_bound: "length (unpinned_part (trim_history hs)) \<le> MAX_ITEMS"
  by (simp add: unpinned_part_trim)

lemma add_to_history_bound: "length (unpinned_part (add_to_history now item hs)) \<le> MAX_ITEMS"
  by (simp add: add_to_history_def Let_def unpinned_trim_bound split: prod.splits)

lemma captures_bound:
  "ops \<noteq> [] \<or> length (unpinned_part hs) \<le> MAX_ITEMS
   \<Longrightarrow> length (unpinned_part (captures ops hs)) \<le> MAX_ITEMS"
proof (induction ops arbitrary: hs)
  case Nil
  then show ?case by simp
next
  case (Cons op ops)
  obtain now item where op: "op = (now, item)"
    by (cases op)
  have "length (unpinned_part (add_to_history now item hs)) \<le> MAX_ITEMS"
    by (rule add_to_history_bound)
  then show ?case
    using Cons.IH [of "add_to_history now item hs"] op by simp
qed

text \<open>
  Claim C2. Trimming keeps every pinned entry, in order, and keeps the first
  \<open>MAX_ITEMS\<close> unpinned entries, dropping the ones at the tail; it runs at the end of
  every capture, so after a capture, and after any sequence of captures that is not empty
  or starts within the limit, at most \<open>MAX_ITEMS\<close> entries are unpinned.
\<close>

theorem trim_history_eviction:
  "MAX_ITEMS = 50
   \<and> trim_history hist = pinned_part hist @ take MAX_ITEMS (unpinned_part hist)
   \<and> pinned_part (trim_history hist) = pinned_part hist
   \<and> unpinned_part (trim_history hist) = take MAX_ITEMS (unpinned_part hist)
   \<and> length (unpinned_part (add_to_history now item hist)) \<le> MAX_ITEMS
   \<and> (ops \<noteq> [] \<or> length (unpinned_part hist) \<le> MAX_ITEMS
        \<longrightarrow> length (unpinned_part (captures ops hist)) \<le> MAX_ITEMS)"
  using trim_history_eq [of hist] pinned_part_trim [of hist] unpinned_part_trim [of hist]
    add_to_history_bound [of now item hist] captures_bound [of ops hist]
  by (simp add: MAX_ITEMS_def)

theorem trim_history_eviction_witness:
  "[(5, ''delta'')] \<noteq> []
   \<and> pinned_part (trim_history [mk_entry ''beta'' 2 True, mk_entry ''alpha'' 3 False])
       = [mk_entry ''beta'' 2 True]
   \<and> length (unpinned_part (captures [(5, ''delta'')]
        [mk_entry ''beta'' 2 True, mk_entry ''alpha'' 3 False])) \<le> MAX_ITEMS"
proof -
  let ?H = "[mk_entry ''beta'' 2 True, mk_entry ''alpha'' 3 False]"
  note t = trim_history_eviction [of ?H 5 "''delta''" "[(5, ''delta'')]"]
  have ne: "[(5::real, ''delta'')] \<noteq> []"
    by simp
  from t have a: "pinned_part (trim_history ?H) = pinned_part ?H"
    by blast
  have c: "pinned_part ?H = [mk_entry ''beta'' 2 True]"
    by (simp add: pinned_part_def mk_entry_def)
  from t ne have d: "length (unpinned_part (captures [(5, ''delta'')] ?H)) \<le> MAX_ITEMS"
    by blast
  from a c have e: "pinned_part (trim_history ?H) = [mk_entry ''beta'' 2 True]"
    by (rule trans)
  from ne e d show ?thesis
    by blast
qed

subsection \<open>The clipboard watcher\<close>

text \<open>
  Claim C4. A tick on which the clipboard cannot be read, does not hold a string, or holds
  a string that is empty after trimming returns normally and changes nothing: neither the
  history nor any other part of the state. The guard sits in the tick, the only caller of
  \<^verbatim>\<open>_add_to_history\<close>.
\<close>

theorem poll_clipboard_ignores_empty:
  "(\<forall>t. clip = ClipText t \<longrightarrow> strip t = []) \<Longrightarrow> poll_clipboard now clip m = m"
  by (cases clip) (simp_all add: poll_clipboard_def)

theorem poll_clipboard_ignores_empty_witness:
  "strip [CHR '' '', CHR 0x09, CHR 0x0A] = []
   \<and> poll_clipboard 7 (ClipText [CHR '' '', CHR 0x09, CHR 0x0A])
        \<lparr>history = [mk_entry ''alpha'' 1 False], last_clip = Some ''alpha'',
         monitoring_paused = False, search_var = [], search_warn_var = [],
         status_var = [], bells = 0\<rparr>
       = \<lparr>history = [mk_entry ''alpha'' 1 False], last_clip = Some ''alpha'',
          monitoring_paused = False, search_var = [], search_warn_var = [],
          status_var = [], bells = 0\<rparr>
   \<and> poll_clipboard 7 ClipTclError
        \<lparr>history = [mk_entry ''alpha'' 1 False], last_clip = Some ''alpha'',
         monitoring_paused = False, search_var = [], search_warn_var = [],
         status_var = [], bells = 0\<rparr>
       = \<lparr>history = [mk_entry ''alpha'' 1 False], last_clip = Some ''alpha'',
          monitoring_paused = False, search_var = [], search_warn_var = [],
          status_var = [], bells = 0\<rparr>"
proof -
  have s: "strip [CHR '' '', CHR 0x09, CHR 0x0A] = []"
    by (simp add: strip_def is_space_def)
  then have h: "\<forall>t. ClipText [CHR '' '', CHR 0x09, CHR 0x0A] = ClipText t \<longrightarrow> strip t = []"
    by simp
  have h': "\<forall>t. ClipTclError = ClipText t \<longrightarrow> strip t = []"
    by simp
  from s poll_clipboard_ignores_empty [OF h] poll_clipboard_ignores_empty [OF h']
  show ?thesis
    by blast
qed

text \<open>
  Claim C7. On a tick whose clipboard text is not empty after trimming, \<open>last_clip\<close>
  becomes that text whether monitoring is paused or not; the history changes, by a capture
  of that text, exactly when monitoring is active and the text differs from the previous
  \<open>last_clip\<close>. So a text seen on a tick during a pause is not captured by the first
  tick after monitoring resumes.
\<close>

theorem poll_clipboard_last_clip:
  "strip t \<noteq> [] \<Longrightarrow>
     last_clip (poll_clipboard now (ClipText t) m) = Some (strip t)
     \<and> history (poll_clipboard now (ClipText t) m)
         = (if \<not> monitoring_paused m \<and> last_clip m \<noteq> Some (strip t)
            then add_to_history now (strip t) (history m) else history m)
     \<and> (monitoring_paused m \<longrightarrow>
          history (poll_clipboard now' (ClipText t)
                     (toggle_monitoring (poll_clipboard now (ClipText t) m)))
          = history m)"
  by (auto simp: poll_clipboard_def toggle_monitoring_def Let_def)

theorem poll_clipboard_last_clip_witness:
  "strip '' beta '' \<noteq> []
   \<and> last_clip (poll_clipboard 7 (ClipText '' beta '')
        \<lparr>history = [mk_entry ''alpha'' 1 False], last_clip = Some ''alpha'',
         monitoring_paused = True, search_var = [], search_warn_var = [],
         status_var = [], bells = 0\<rparr>) = Some ''beta''
   \<and> history (poll_clipboard 8 (ClipText '' beta '')
        (toggle_monitoring (poll_clipboard 7 (ClipText '' beta '')
          \<lparr>history = [mk_entry ''alpha'' 1 False], last_clip = Some ''alpha'',
           monitoring_paused = True, search_var = [], search_warn_var = [],
           status_var = [], bells = 0\<rparr>)))
       = [mk_entry ''alpha'' 1 False]"
proof -
  let ?m = "\<lparr>history = [mk_entry ''alpha'' 1 False], last_clip = Some ''alpha'',
             monitoring_paused = True, search_var = [], search_warn_var = [],
             status_var = [], bells = 0\<rparr>"
  have s: "strip '' beta '' = ''beta''"
    by (simp add: strip_def is_space_def)
  then have h: "strip '' beta '' \<noteq> []"
    by simp
  note t = poll_clipboard_last_clip [OF h, of 7 ?m 8]
  from t s have a: "last_clip (poll_clipboard 7 (ClipText '' beta '') ?m) = Some ''beta''"
    by simp
  from t have b: "history (poll_clipboard 8 (ClipText '' beta '')
        (toggle_monitoring (poll_clipboard 7 (ClipText '' beta '') ?m)))
       = [mk_entry ''alpha'' 1 False]"
    by simp
  from h a b show ?thesis
    by blast
qed

subsection \<open>The search box\<close>

text \<open>
  Claim C9. \<^verbatim>\<open>_validate_search\<close> accepts a proposed text exactly when it has at most
  \<open>MAX_SEARCH_CHARS\<close> = 200 characters. A longer one is refused as a whole: the bell
  rings, the warning is set, and the text of the search box stays what it was; an accepted
  one becomes the text of the search box and clears the warning.
\<close>

theorem validate_search_limit:
  "MAX_SEARCH_CHARS = 200
   \<and> (fst (validate_search proposed m) \<longleftrightarrow> length proposed \<le> MAX_SEARCH_CHARS)
   \<and> (length proposed > MAX_SEARCH_CHARS \<longrightarrow>
        search_key_edit proposed m
        = m\<lparr>bells := Suc (bells m), search_warn_var := ''Search limited to 200 characters''\<rparr>
        \<and> search_var (search_key_edit proposed m) = search_var m)
   \<and> (length proposed \<le> MAX_SEARCH_CHARS \<longrightarrow>
        search_key_edit proposed m = m\<lparr>search_warn_var := [], search_var := proposed\<rparr>)"
  by (simp add: validate_search_def search_key_edit_def MAX_SEARCH_CHARS_def)

theorem validate_search_limit_witness:
  "length (replicate 201 CHR ''a'') > MAX_SEARCH_CHARS
   \<and> \<not> fst (validate_search (replicate 201 CHR ''a'')
        \<lparr>history = [], last_clip = None, monitoring_paused = False,
         search_var = replicate 200 CHR ''a'', search_warn_var = [], status_var = [],
         bells = 0\<rparr>)
   \<and> search_var (search_key_edit (replicate 201 CHR ''a'')
        \<lparr>history = [], last_clip = None, monitoring_paused = False,
         search_var = replicate 200 CHR ''a'', search_warn_var = [], status_var = [],
         bells = 0\<rparr>) = replicate 200 CHR ''a''"
proof -
  let ?m = "\<lparr>history = [], last_clip = None, monitoring_paused = False,
             search_var = replicate 200 CHR ''a'', search_warn_var = [], status_var = [],
             bells = 0\<rparr>"
  have h: "length (replicate 201 CHR ''a'') > MAX_SEARCH_CHARS"
    by (simp add: MAX_SEARCH_CHARS_def)
  note t = validate_search_limit [of "replicate 201 CHR ''a''" ?m]
  from t have a1: "fst (validate_search (replicate 201 CHR ''a'') ?m)
      \<longleftrightarrow> length (replicate 201 CHR ''a'') \<le> MAX_SEARCH_CHARS"
    by blast
  from a1 h have a: "\<not> fst (validate_search (replicate 201 CHR ''a'') ?m)"
    by linarith
  from t h have b1: "search_var (search_key_edit (replicate 201 CHR ''a'') ?m) = search_var ?m"
    by blast
  then have b: "search_var (search_key_edit (replicate 201 CHR ''a'') ?m)
      = replicate 200 CHR ''a''"
    by simp
  from h a b show ?thesis
    by blast
qed

subsection \<open>Re-capturing and pinning\<close>

lemma MAX_ITEMS_pos: "0 < MAX_ITEMS"
  by (simp add: MAX_ITEMS_def)

lemma pinned_part_Cons [simp]:
  "pinned_part (x # xs) = (if pinned x then x # pinned_part xs else pinned_part xs)"
  by (simp add: pinned_part_def)

lemma unpinned_part_Cons [simp]:
  "unpinned_part (x # xs) = (if pinned x then unpinned_part xs else x # unpinned_part xs)"
  by (simp add: unpinned_part_def)

lemma pinned_part_Nil [simp]: "pinned_part [] = []"
  by (simp add: pinned_part_def)

lemma unpinned_part_Nil [simp]: "unpinned_part [] = []"
  by (simp add: unpinned_part_def)

lemma pinned_count_eq: "pinned_count hs = length (pinned_part hs)"
  by (simp add: pinned_count_def pinned_part_def)

lemma list_insert_0: "list_insert 0 x xs = x # xs"
  by (simp add: list_insert_def)

lemma list_insert_append: "list_insert (length xs) x (xs @ ys) = xs @ x # ys"
  by (simp add: list_insert_def)

lemma filter_text_id: "t \<notin> etext ` set hs \<Longrightarrow> filter (\<lambda>h. etext h \<noteq> t) hs = hs"
  by (rule filter_True) auto

lemma same_text_same_entry:
  "distinct (map etext hs) \<Longrightarrow> x \<in> set hs \<Longrightarrow> y \<in> set hs \<Longrightarrow> etext x = etext y \<Longrightarrow> x = y"
  by (auto simp: distinct_map dest: inj_onD)

lemma filter_text_remove1:
  "distinct (map etext hs) \<Longrightarrow> e \<in> set hs
   \<Longrightarrow> filter (\<lambda>h. etext h \<noteq> etext e) hs = remove1 e hs"
proof (induction hs)
  case Nil
  then show ?case by simp
next
  case (Cons h hs)
  show ?case
  proof (cases "h = e")
    case True
    with Cons.prems have "etext e \<notin> etext ` set hs"
      by simp
    then show ?thesis
      using True by (simp add: filter_text_id)
  next
    case False
    with Cons.prems have "e \<in> set hs" and "etext h \<noteq> etext e"
      by auto
    with Cons False show ?thesis
      by simp
  qed
qed

lemma select_text_mem:
  "distinct (map etext hs) \<Longrightarrow> e \<in> set hs \<Longrightarrow> select_text (etext e) hs = Some e"
proof (induction hs)
  case Nil
  then show ?case by simp
next
  case (Cons h hs)
  show ?case
  proof (cases "h = e")
    case True
    then show ?thesis
      by (simp add: select_text_def)
  next
    case False
    with Cons.prems have "e \<in> set hs" and "etext h \<noteq> etext e"
      by auto
    with Cons show ?thesis
      by (simp add: select_text_def)
  qed
qed

lemma pop_first_mem:
  "distinct (map etext hs) \<Longrightarrow> e \<in> set hs
   \<Longrightarrow> pop_first (etext e) hs = (pinned e, remove1 e hs)"
proof (induction hs)
  case Nil
  then show ?case by simp
next
  case (Cons h hs)
  show ?case
  proof (cases "h = e")
    case True
    then show ?thesis
      by simp
  next
    case False
    with Cons.prems have "e \<in> set hs" and "etext h \<noteq> etext e"
      by auto
    with Cons False show ?thesis
      by simp
  qed
qed

lemma trim_history_Cons_pinned: "pinned e \<Longrightarrow> trim_history (e # hs) = e # trim_history hs"
  by (simp add: trim_history_eq)

lemma pinned_mk_entry [simp]: "pinned (mk_entry t stamp p) = p"
  by (simp add: mk_entry_def)

lemma etext_mk_entry [simp]: "etext (mk_entry t stamp p) = t"
  by (simp add: mk_entry_def)

lemma ts_mk_entry [simp]: "ts (mk_entry t stamp p) = stamp"
  by (simp add: mk_entry_def)

text \<open>
  Claim C5. In a history without duplicate texts, capturing the text of a pinned entry
  removes that entry and puts a fresh one at position 0: same text, pinned, time stamp
  the time of the capture; the rest of the history follows, trimmed.
\<close>

theorem capture_pinned_moves_to_front:
  assumes "distinct (map etext hist)" and "e \<in> set hist" and "pinned e"
  shows "add_to_history now (etext e) hist
         = \<lparr>etext = etext e, fold_key = casefold (etext e), ts = now, pinned = True\<rparr>
           # trim_history (remove1 e hist)"
proof -
  have "pop_first (etext e) hist = (True, remove1 e hist)"
    using assms pop_first_mem [of hist e] by simp
  then have "add_to_history now (etext e) hist
      = trim_history (mk_entry (etext e) now True # remove1 e hist)"
    by (simp add: add_to_history_def list_insert_0)
  also have "\<dots> = mk_entry (etext e) now True # trim_history (remove1 e hist)"
    by (rule trim_history_Cons_pinned) simp
  finally show ?thesis
    by (simp add: mk_entry_def)
qed

theorem capture_pinned_moves_to_front_witness:
  "distinct (map etext [mk_entry ''alpha'' 3 False, mk_entry ''beta'' 2 True])
   \<and> mk_entry ''beta'' 2 True \<in> set [mk_entry ''alpha'' 3 False, mk_entry ''beta'' 2 True]
   \<and> pinned (mk_entry ''beta'' 2 True)
   \<and> add_to_history 9 ''beta'' [mk_entry ''alpha'' 3 False, mk_entry ''beta'' 2 True]
       = [mk_entry ''beta'' 9 True, mk_entry ''alpha'' 3 False]"
proof -
  let ?H = "[mk_entry ''alpha'' 3 False, mk_entry ''beta'' 2 True]"
  have d: "distinct (map etext ?H)"
    by simp
  have m: "mk_entry ''beta'' 2 True \<in> set ?H"
    by simp
  have p: "pinned (mk_entry ''beta'' 2 True)"
    by simp
  have r: "remove1 (mk_entry ''beta'' 2 True) ?H = [mk_entry ''alpha'' 3 False]"
    by (simp add: mk_entry_def)
  have t: "trim_history [mk_entry ''alpha'' 3 False] = [mk_entry ''alpha'' 3 False]"
    by (simp add: trim_history_eq MAX_ITEMS_def)
  have "add_to_history 9 ''beta'' ?H = [mk_entry ''beta'' 9 True, mk_entry ''alpha'' 3 False]"
    using capture_pinned_moves_to_front [OF d m p, of 9] r t by (simp add: mk_entry_def)
  with d m p show ?thesis
    by blast
qed

subsection \<open>Toggling the pin\<close>

lemma history_toggle_pin_selected:
  "history (toggle_pin_selected (Some item) m) = toggle_pin item (history m)"
  by (simp add: toggle_pin_selected_def)

lemma trim_history_partitioned: "partitioned (trim_history hs)"
  by (simp add: partitioned_def trim_history_eq)

lemma pinned_part_filter: "pinned_part (filter Q hs) = filter Q (pinned_part hs)"
  by (induction hs) auto

lemma unpinned_part_filter: "unpinned_part (filter Q hs) = filter Q (unpinned_part hs)"
  by (induction hs) auto

lemma filter_partitioned:
  assumes "partitioned hs"
  shows "partitioned (filter Q hs)"
proof -
  from assms have "filter Q hs = filter Q (pinned_part hs @ unpinned_part hs)"
    by (simp add: partitioned_def)
  then show ?thesis
    by (simp add: partitioned_def pinned_part_filter unpinned_part_filter)
qed

lemma insert_unpinned_partitioned:
  assumes "partitioned hs" and "\<not> pinned e"
  shows "trim_history (list_insert (pinned_count hs) e hs)
         = pinned_part hs @ take MAX_ITEMS (e # unpinned_part hs)"
proof -
  from assms(1) have eq: "pinned_part hs @ unpinned_part hs = hs"
    by (simp add: partitioned_def)
  have "list_insert (pinned_count hs) e hs
      = list_insert (length (pinned_part hs)) e (pinned_part hs @ unpinned_part hs)"
    by (simp add: eq pinned_count_eq)
  also have "\<dots> = pinned_part hs @ e # unpinned_part hs"
    by (rule list_insert_append)
  finally have "list_insert (pinned_count hs) e hs = pinned_part hs @ e # unpinned_part hs" .
  then show ?thesis
    using assms(2) by (simp add: trim_history_eq)
qed

lemma toggle_pin_to_pinned:
  assumes "\<not> pinned item"
  shows "toggle_pin item hs
         = mk_entry (etext item) (ts item) True
           # trim_history (filter (\<lambda>h. etext h \<noteq> etext item) hs)"
  using assms by (simp add: toggle_pin_def Let_def list_insert_0 trim_history_Cons_pinned)

lemma toggle_pin_to_unpinned:
  assumes "pinned item" and "partitioned hs"
  shows "toggle_pin item hs
         = pinned_part (filter (\<lambda>h. etext h \<noteq> etext item) hs)
           @ take MAX_ITEMS (mk_entry (etext item) (ts item) False
               # unpinned_part (filter (\<lambda>h. etext h \<noteq> etext item) hs))"
proof -
  have "partitioned (filter (\<lambda>h. etext h \<noteq> etext item) hs)"
    using assms(2) by (rule filter_partitioned)
  then show ?thesis
    using assms(1) by (simp add: toggle_pin_def Let_def insert_unpinned_partitioned)
qed

lemma take_MAX_Cons: "take MAX_ITEMS (x # xs) = x # take (MAX_ITEMS - 1) xs"
  by (simp add: MAX_ITEMS_def)

lemma toggle_twice_eq:
  assumes d: "distinct (map etext hist)" and m: "e \<in> set hist" and u: "\<not> pinned e"
  shows "toggle_pin_text (etext e) (toggle_pin_text (etext e) hist)
         = pinned_part hist
           @ mk_entry (etext e) (ts e) False
           # take (MAX_ITEMS - 1) (take MAX_ITEMS (remove1 e (unpinned_part hist)))"
proof -
  let ?t = "etext e"
  let ?Q = "\<lambda>h. etext h \<noteq> ?t"
  let ?e1 = "mk_entry ?t (ts e) True"
  let ?T = "trim_history (filter ?Q hist)"
  have rm: "filter ?Q hist = remove1 e hist"
    using d m by (rule filter_text_remove1)
  have first: "toggle_pin_text ?t hist = ?e1 # ?T"
    using select_text_mem [OF d m] toggle_pin_to_pinned [OF u, of hist]
    by (simp add: toggle_pin_text_def)
  have sel: "select_text ?t (?e1 # ?T) = Some ?e1"
    by (simp add: select_text_def)
  have "set ?T \<subseteq> set (filter ?Q hist)"
    by (rule trim_history_set)
  then have absent: "?t \<notin> etext ` set ?T"
    by auto
  have fT: "filter ?Q (?e1 # ?T) = ?T"
    using absent by (simp add: filter_text_id)
  have partT: "partitioned ?T"
    by (rule trim_history_partitioned)
  have "toggle_pin_text ?t (?e1 # ?T) = toggle_pin ?e1 (?e1 # ?T)"
    using sel by (simp add: toggle_pin_text_def)
  also have "\<dots> = trim_history (list_insert (pinned_count ?T) (mk_entry ?t (ts e) False) ?T)"
    using fT by (simp add: toggle_pin_def Let_def)
  also have "\<dots> = pinned_part ?T @ take MAX_ITEMS (mk_entry ?t (ts e) False # unpinned_part ?T)"
    using partT by (rule insert_unpinned_partitioned) simp
  finally have second: "toggle_pin_text ?t (?e1 # ?T)
      = pinned_part ?T @ take MAX_ITEMS (mk_entry ?t (ts e) False # unpinned_part ?T)" .
  have "pinned_part (remove1 e hist) = pinned_part hist"
    using u unfolding pinned_part_def by (induction hist) auto
  then have pT: "pinned_part ?T = pinned_part hist"
    by (simp add: pinned_part_trim rm)
  have "unpinned_part (remove1 e hist) = remove1 e (unpinned_part hist)"
    using u unfolding unpinned_part_def by (induction hist) auto
  then have uT: "unpinned_part ?T = take MAX_ITEMS (remove1 e (unpinned_part hist))"
    by (simp add: unpinned_part_trim rm)
  show ?thesis
    unfolding first second pT uT take_MAX_Cons ..
qed

text \<open>
  Claim C6. In a history without duplicate texts, toggling the pin of an unpinned entry
  twice through its text (pin, then unpin) leaves exactly one entry with that text: it is
  unpinned, it is in the unpinned block, and it has the entry's text and the entry's
  original time stamp.
\<close>

theorem toggle_pin_twice:
  assumes "distinct (map etext hist)" and "e \<in> set hist" and "\<not> pinned e"
  shows "\<lparr>etext = etext e, fold_key = casefold (etext e), ts = ts e, pinned = False\<rparr>
           \<in> set (unpinned_part (toggle_pin_text (etext e) (toggle_pin_text (etext e) hist)))
         \<and> (\<forall>x \<in> set (toggle_pin_text (etext e) (toggle_pin_text (etext e) hist)).
              etext x = etext e \<longrightarrow>
              x = \<lparr>etext = etext e, fold_key = casefold (etext e), ts = ts e, pinned = False\<rparr>)"
proof -
  let ?e2 = "mk_entry (etext e) (ts e) False"
  let ?rest = "take (MAX_ITEMS - 1) (take MAX_ITEMS (remove1 e (unpinned_part hist)))"
  let ?h2 = "toggle_pin_text (etext e) (toggle_pin_text (etext e) hist)"
  have eq: "?h2 = pinned_part hist @ ?e2 # ?rest"
    using assms by (rule toggle_twice_eq)
  have mem: "?e2 \<in> set (unpinned_part ?h2)"
    by (simp add: eq)
  have "x = ?e2" if x: "x \<in> set ?h2" and t: "etext x = etext e" for x
  proof (rule ccontr)
    assume ne: "x \<noteq> ?e2"
    have "set ?rest \<subseteq> set (remove1 e (unpinned_part hist))"
      by (meson in_set_takeD subsetI)
    then have "set ?rest \<subseteq> set (remove1 e hist)"
      by (metis (no_types, lifting) filter_is_subset filter_remove1 unpinned_part_def
          subset_trans)
    with x ne eq have "x \<in> set (pinned_part hist) \<or> x \<in> set (remove1 e hist)"
      by auto
    moreover have "x \<noteq> e" if "x \<in> set (pinned_part hist)"
      using that assms(3) by (auto simp: pinned_part_def)
    moreover have "x \<noteq> e" if "x \<in> set (remove1 e hist)"
    proof -
      from assms(1) have "distinct hist"
        by (simp add: distinct_map)
      with that show ?thesis
        by auto
    qed
    moreover have "x \<in> set hist" if "x \<in> set (pinned_part hist) \<or> x \<in> set (remove1 e hist)"
      using that set_remove1_subset [of e hist] by (auto simp: pinned_part_def)
    ultimately have "x \<in> set hist" and "x \<noteq> e"
      by blast+
    with same_text_same_entry [OF assms(1) _ assms(2) t] show False
      by blast
  qed
  with mem show ?thesis
    by (simp add: mk_entry_def)
qed

theorem toggle_pin_twice_witness:
  "distinct (map etext [mk_entry ''beta'' 2 True, mk_entry ''alpha'' 3 False])
   \<and> mk_entry ''alpha'' 3 False \<in> set [mk_entry ''beta'' 2 True, mk_entry ''alpha'' 3 False]
   \<and> \<not> pinned (mk_entry ''alpha'' 3 False)
   \<and> mk_entry ''alpha'' 3 False
       \<in> set (unpinned_part (toggle_pin_text ''alpha'' (toggle_pin_text ''alpha''
                [mk_entry ''beta'' 2 True, mk_entry ''alpha'' 3 False])))"
proof -
  let ?H = "[mk_entry ''beta'' 2 True, mk_entry ''alpha'' 3 False]"
  have d: "distinct (map etext ?H)"
    by simp
  have m: "mk_entry ''alpha'' 3 False \<in> set ?H"
    by simp
  have u: "\<not> pinned (mk_entry ''alpha'' 3 False)"
    by simp
  have "mk_entry ''alpha'' 3 False
       \<in> set (unpinned_part (toggle_pin_text ''alpha'' (toggle_pin_text ''alpha'' ?H)))"
    using toggle_pin_twice [OF d m u] by (simp add: mk_entry_def)
  with d m u show ?thesis
    by blast
qed

text \<open>
  Claim C10. Unpinning runs the same trim as a capture. In a history with the pinned
  entries first, no duplicate texts and exactly \<open>MAX_ITEMS\<close> unpinned entries, unpinning a
  pinned entry puts it at the front of the unpinned block and drops the last unpinned
  entry, an entry other than the one unpinned.
\<close>

theorem unpin_at_capacity_evicts:
  assumes "partitioned hist" and "distinct (map etext hist)"
    and "e \<in> set hist" and "pinned e"
    and "length (unpinned_part hist) = MAX_ITEMS"
  shows "toggle_pin e hist
         = remove1 e (pinned_part hist)
           @ \<lparr>etext = etext e, fold_key = casefold (etext e), ts = ts e, pinned = False\<rparr>
           # butlast (unpinned_part hist)
         \<and> last (unpinned_part hist) \<in> set hist
         \<and> etext (last (unpinned_part hist)) \<noteq> etext e
         \<and> last (unpinned_part hist) \<notin> set (toggle_pin e hist)"
proof -
  let ?Q = "\<lambda>h. etext h \<noteq> etext e"
  let ?U = "unpinned_part hist"
  let ?e' = "mk_entry (etext e) (ts e) False"
  from assms(2) have dh: "distinct hist"
    by (simp add: distinct_map)
  have ne: "?U \<noteq> []"
    using assms(5) MAX_ITEMS_pos by auto
  then have lastU: "last ?U \<in> set ?U"
    by (rule last_in_set)
  then have last_hist: "last ?U \<in> set hist" and last_unpinned: "\<not> pinned (last ?U)"
    by (simp_all add: unpinned_part_def)
  have other: "etext x \<noteq> etext e" if "x \<in> set ?U" for x
  proof
    assume "etext x = etext e"
    moreover from that have "x \<in> set hist" and "\<not> pinned x"
      by (simp_all add: unpinned_part_def)
    ultimately have "x = e"
      using same_text_same_entry [OF assms(2) _ assms(3)] by blast
    with \<open>\<not> pinned x\<close> assms(4) show False
      by simp
  qed
  then have last_text: "etext (last ?U) \<noteq> etext e"
    using lastU by blast
  have fU: "filter ?Q ?U = ?U"
    by (rule filter_True) (use other in blast)
  have "distinct (map etext (pinned_part hist))"
    using assms(2) unfolding pinned_part_def by (rule distinct_map_filter)
  moreover have "e \<in> set (pinned_part hist)"
    using assms(3,4) by (simp add: pinned_part_def)
  ultimately have fP: "filter ?Q (pinned_part hist) = remove1 e (pinned_part hist)"
    by (rule filter_text_remove1)
  have "take MAX_ITEMS (?e' # ?U) = ?e' # take (length ?U - 1) ?U"
    by (simp add: take_MAX_Cons assms(5))
  then have tk: "take MAX_ITEMS (?e' # ?U) = ?e' # butlast ?U"
    by (simp add: butlast_conv_take)
  have eq: "toggle_pin e hist = remove1 e (pinned_part hist) @ ?e' # butlast ?U"
    using toggle_pin_to_unpinned [OF assms(4) assms(1)]
    by (simp add: pinned_part_filter unpinned_part_filter fU fP tk)
  have "distinct ?U"
    using dh by (simp add: unpinned_part_def)
  then have "distinct (butlast ?U @ [last ?U])"
    using ne by simp
  then have not_butlast: "last ?U \<notin> set (butlast ?U)"
    by simp
  have "last ?U \<notin> set (pinned_part hist)"
    using last_unpinned by (simp add: pinned_part_def)
  then have not_pinned: "last ?U \<notin> set (remove1 e (pinned_part hist))"
    by (rule notin_set_remove1)
  have "last ?U \<noteq> ?e'"
    using last_text by auto
  with not_butlast not_pinned have gone: "last ?U \<notin> set (toggle_pin e hist)"
    by (simp add: eq)
  from eq last_hist last_text gone show ?thesis
    by (simp add: mk_entry_def)
qed

theorem unpin_at_capacity_evicts_witness:
  "partitioned (mk_entry ''p'' 0 True
      # map (\<lambda>i. mk_entry (replicate i CHR ''a'') (real i) False) [1..<51])
   \<and> distinct (map etext (mk_entry ''p'' 0 True
      # map (\<lambda>i. mk_entry (replicate i CHR ''a'') (real i) False) [1..<51]))
   \<and> pinned (mk_entry ''p'' 0 True)
   \<and> length (unpinned_part (mk_entry ''p'' 0 True
      # map (\<lambda>i. mk_entry (replicate i CHR ''a'') (real i) False) [1..<51])) = MAX_ITEMS
   \<and> mk_entry (replicate 50 CHR ''a'') 50 False
       \<in> set (mk_entry ''p'' 0 True
           # map (\<lambda>i. mk_entry (replicate i CHR ''a'') (real i) False) [1..<51])
   \<and> mk_entry (replicate 50 CHR ''a'') 50 False
       \<notin> set (toggle_pin (mk_entry ''p'' 0 True) (mk_entry ''p'' 0 True
           # map (\<lambda>i. mk_entry (replicate i CHR ''a'') (real i) False) [1..<51]))"
proof -
  define U where "U = map (\<lambda>i. mk_entry (replicate i CHR ''a'') (real i) False) [1..<51]"
  let ?e = "mk_entry ''p'' 0 True"
  let ?H = "?e # U"
  have all_unpinned: "\<forall>x \<in> set U. \<not> pinned x"
    by (auto simp: U_def)
  have up: "unpinned_part U = U"
    unfolding unpinned_part_def using all_unpinned by (simp add: filter_id_conv)
  have pp: "pinned_part U = []"
    unfolding pinned_part_def using all_unpinned by (simp add: filter_empty_conv)
  have part: "partitioned ?H"
    by (simp add: partitioned_def up pp)
  have lenU: "length U = 50"
    by (simp add: U_def)
  have len: "length (unpinned_part ?H) = MAX_ITEMS"
    by (simp add: up lenU MAX_ITEMS_def)
  have texts: "map etext U = map (\<lambda>i. replicate i CHR ''a'') [1..<51]"
    by (simp add: U_def o_def)
  have inj: "inj_on (\<lambda>i. replicate i CHR ''a'') (set [1..<51])"
    by (rule inj_onI) (drule arg_cong [where f = length], simp)
  have fresh: "''p'' \<notin> set (map (\<lambda>i. replicate i CHR ''a'') [1..<51])"
  proof
    assume "''p'' \<in> set (map (\<lambda>i. replicate i CHR ''a'') [1..<51])"
    then obtain i where "''p'' = replicate i CHR ''a''"
      by auto
    then have "CHR ''p'' \<in> set (replicate i CHR ''a'')"
      by (metis list.set_intros(1))
    then show False
      by simp
  qed
  have "distinct (map (\<lambda>i. replicate i CHR ''a'') [1..<51])"
    using inj by (simp add: distinct_map)
  with fresh have d: "distinct (map etext ?H)"
    by (simp add: texts)
  have m: "?e \<in> set ?H"
    by simp
  have p: "pinned ?e"
    by simp
  have "U \<noteq> []"
    using lenU by auto
  then have "last U = mk_entry (replicate (last [1..<51]) CHR ''a'') (real (last [1..<51])) False"
    unfolding U_def by (simp add: last_map)
  then have l: "last (unpinned_part ?H) = mk_entry (replicate 50 CHR ''a'') 50 False"
    by (simp add: up)
  note t = unpin_at_capacity_evicts [OF part d m p len]
  from t have "last (unpinned_part ?H) \<in> set ?H"
    and "last (unpinned_part ?H) \<notin> set (toggle_pin ?e ?H)"
    by blast+
  then have a: "mk_entry (replicate 50 CHR ''a'') 50 False \<in> set ?H"
    and b: "mk_entry (replicate 50 CHR ''a'') 50 False \<notin> set (toggle_pin ?e ?H)"
    unfolding l by this+
  from part d p len a b show ?thesis
    unfolding U_def by blast
qed

subsection \<open>Replacing the hotkey\<close>

text \<open>
  The listener as it is once its window runs with the default binding registered
  (Ctrl+Alt+V without repeat: modifiers 0x4003, key 0x56), and a request for Ctrl+Alt+C.
  The system refuses the new combination and refuses the rollback as well: afterwards no
  combination is registered, neither the new one nor the previous one.
\<close>

theorem set_hotkey_neither_counterexample:
  "registered (wndproc_set_hotkey False False
      (set_hotkey 0x4003 0x43 ''Ctrl+Alt+C''
        \<lparr>mods = 0x4003, vk = 0x56, display = ''Ctrl+Alt+V'',
         pending_mods = None, pending_vk = None, pending_display = None,
         registered = Some (0x4003, 0x56), q = []\<rparr>)) = None
   \<and> q (wndproc_set_hotkey False False
      (set_hotkey 0x4003 0x43 ''Ctrl+Alt+C''
        \<lparr>mods = 0x4003, vk = 0x56, display = ''Ctrl+Alt+V'',
         pending_mods = None, pending_vk = None, pending_display = None,
         registered = Some (0x4003, 0x56), q = []\<rparr>))
     = [ERROR ''Hotkey registration failed and rollback failed.'']"
  by (simp add: wndproc_set_hotkey_def set_hotkey_def register_hotkey_def
      unregister_hotkey_def put_def)

text \<open>
  Claim C3, amended. A request with a complete pending binding ends in one of three
  states, decided by the system's two answers. New combination granted: it is the
  registered one and the listener's binding, and an INFO event reports it. New combination
  refused, rollback granted: the previous combination is registered again, the listener's
  binding is unchanged, and an ERROR event says it was kept. Both refused: nothing is
  registered, the listener's binding is unchanged, and a different ERROR event reports the
  failed rollback.
\<close>

theorem set_hotkey_outcomes:
  assumes "pending_mods l = Some new_mods" and "pending_vk l = Some new_vk"
    and "pending_display l = Some new_disp" and "new_disp \<noteq> []"
  shows "wndproc_set_hotkey True granted_old l
           = l\<lparr>registered := Some (new_mods, new_vk),
               mods := new_mods, vk := new_vk, display := new_disp,
               q := q l @ [INFO (''Hotkey set to: '' @ new_disp)]\<rparr>
         \<and> wndproc_set_hotkey False True l
           = l\<lparr>registered := Some (mods l, vk l),
               q := q l @ [ERROR (''Hotkey '' @ [CHR 0x27] @ new_disp @ [CHR 0x27]
                             @ '' unavailable (already used). Kept: '' @ display l)]\<rparr>
         \<and> wndproc_set_hotkey False False l
           = l\<lparr>registered := None,
               q := q l @ [ERROR ''Hotkey registration failed and rollback failed.'']\<rparr>"
  using assms
  by (simp add: wndproc_set_hotkey_def register_hotkey_def unregister_hotkey_def put_def)

theorem set_hotkey_outcomes_witness:
  "registered (wndproc_set_hotkey True False
      \<lparr>mods = 0x4003, vk = 0x56, display = ''Ctrl+Alt+V'',
       pending_mods = Some 0x4003, pending_vk = Some 0x43,
       pending_display = Some ''Ctrl+Alt+C'',
       registered = Some (0x4003, 0x56), q = []\<rparr>) = Some (0x4003, 0x43)
   \<and> registered (wndproc_set_hotkey False True
      \<lparr>mods = 0x4003, vk = 0x56, display = ''Ctrl+Alt+V'',
       pending_mods = Some 0x4003, pending_vk = Some 0x43,
       pending_display = Some ''Ctrl+Alt+C'',
       registered = Some (0x4003, 0x56), q = []\<rparr>) = Some (0x4003, 0x56)
   \<and> vk (wndproc_set_hotkey False True
      \<lparr>mods = 0x4003, vk = 0x56, display = ''Ctrl+Alt+V'',
       pending_mods = Some 0x4003, pending_vk = Some 0x43,
       pending_display = Some ''Ctrl+Alt+C'',
       registered = Some (0x4003, 0x56), q = []\<rparr>) = 0x56"
proof -
  let ?l = "\<lparr>mods = 0x4003, vk = 0x56, display = ''Ctrl+Alt+V'',
       pending_mods = Some 0x4003, pending_vk = Some 0x43,
       pending_display = Some ''Ctrl+Alt+C'',
       registered = Some (0x4003, 0x56), q = []\<rparr>"
  have a: "pending_mods ?l = Some 0x4003" and b: "pending_vk ?l = Some 0x43"
    and c: "pending_display ?l = Some ''Ctrl+Alt+C''" and d: "''Ctrl+Alt+C'' \<noteq> []"
    by simp_all
  note t = set_hotkey_outcomes [OF a b c d, of False]
  from t have "wndproc_set_hotkey True False ?l
      = ?l\<lparr>registered := Some (0x4003, 0x43),
           mods := 0x4003, vk := 0x43, display := ''Ctrl+Alt+C'',
           q := q ?l @ [INFO (''Hotkey set to: '' @ ''Ctrl+Alt+C'')]\<rparr>"
    by (rule conjunct1)
  then have r1: "registered (wndproc_set_hotkey True False ?l) = Some (0x4003, 0x43)"
    by simp
  from t have "wndproc_set_hotkey False True ?l
      = ?l\<lparr>registered := Some (mods ?l, vk ?l),
           q := q ?l @ [ERROR (''Hotkey '' @ [CHR 0x27] @ ''Ctrl+Alt+C'' @ [CHR 0x27]
                         @ '' unavailable (already used). Kept: '' @ display ?l)]\<rparr>"
    by (rule conjunct1 [OF conjunct2])
  then have r2: "registered (wndproc_set_hotkey False True ?l) = Some (0x4003, 0x56)"
    and r3: "vk (wndproc_set_hotkey False True ?l) = 0x56"
    by simp_all
  from r1 r2 r3 show ?thesis
    by blast
qed

subsection \<open>Loading the history\<close>

















end
